theory Spec2Isabelle
  imports Complex_Main
begin

section \<open>Strings and characters\<close>

text \<open>
  A JavaScript string is a sequence of UTF-16 code units. The model covers the code
  units U+0000 .. U+00FF (ASCII and Latin-1), one HOL \<open>char\<close> each, so a text is a
  HOL \<open>string\<close>. Within that range the character classes, case mappings and
  whitespace set below are the ones of ECMAScript.
\<close>

definition is_digit :: "char \<Rightarrow> bool" where
  \<comment> \<open>\<open>\d\<close>\<close>
  "is_digit c = (c \<in> set ''0123456789'')"

definition is_lower :: "char \<Rightarrow> bool" where
  \<comment> \<open>\<open>[a-z]\<close>\<close>
  "is_lower c = (c \<in> set ''abcdefghijklmnopqrstuvwxyz'')"

definition is_upper :: "char \<Rightarrow> bool" where
  \<comment> \<open>\<open>[A-Z]\<close>\<close>
  "is_upper c = (c \<in> set ''ABCDEFGHIJKLMNOPQRSTUVWXYZ'')"

definition is_word :: "char \<Rightarrow> bool" where
  \<comment> \<open>\<open>\w\<close>, that is \<open>[A-Za-z0-9_]\<close>\<close>
  "is_word c = (is_lower c \<or> is_upper c \<or> is_digit c \<or> c = CHR ''_'')"

definition is_space :: "char \<Rightarrow> bool" where
  \<comment> \<open>\<open>\s\<close> and the characters \<open>trim\<close> removes: TAB, LF, VT, FF, CR, space, NBSP\<close>
  "is_space c = (c \<in> {CHR 0x09, CHR 0x0A, CHR 0x0B, CHR 0x0C, CHR 0x0D, CHR '' '', CHR 0xA0})"

definition is_lower_alnum :: "char \<Rightarrow> bool" where
  \<comment> \<open>\<open>[a-z0-9]\<close>\<close>
  "is_lower_alnum c = (is_lower c \<or> is_digit c)"

definition lower_char :: "char \<Rightarrow> char" where
  \<comment> \<open>\<open>toLowerCase\<close> on one code unit: A-Z, and U+00C0 .. U+00DE except U+00D7\<close>
  "lower_char c =
     (let n = of_char c :: nat
      in if (65 \<le> n \<and> n \<le> 90) \<or> (192 \<le> n \<and> n \<le> 222 \<and> n \<noteq> 215)
         then char_of (n + 32) else c)"

definition toLowerCase :: "string \<Rightarrow> string" where
  "toLowerCase s = map lower_char s"

definition canonicalize :: "char \<Rightarrow> char" where
  \<comment> \<open>the case folding of a regular expression with flag \<open>i\<close> (and without flag \<open>u\<close>):
      the upper-case form when it is a single code unit; U+00B5 and U+00FF fold outside
      Latin-1 and so are equal only to themselves here, U+00DF is unchanged\<close>
  "canonicalize c =
     (let n = of_char c :: nat
      in if (97 \<le> n \<and> n \<le> 122) \<or> (224 \<le> n \<and> n \<le> 254 \<and> n \<noteq> 247)
         then char_of (n - 32) else c)"

definition chr_eq :: "bool \<Rightarrow> char \<Rightarrow> char \<Rightarrow> bool" where
  \<comment> \<open>a pattern character against an input character; the flag is \<open>ignoreCase\<close>\<close>
  "chr_eq ic p c = (if ic then canonicalize p = canonicalize c else p = c)"

definition trim :: "string \<Rightarrow> string" where
  "trim s = rev (dropWhile is_space (rev (dropWhile is_space s)))"

fun startsWith :: "string \<Rightarrow> string \<Rightarrow> bool" where
  "startsWith s [] = True"
| "startsWith [] (p # ps) = False"
| "startsWith (c # cs) (p # ps) = (c = p \<and> startsWith cs ps)"

fun includes_str :: "string \<Rightarrow> string \<Rightarrow> bool" where
  "includes_str [] p = (p = [])"
| "includes_str (c # cs) p = (startsWith (c # cs) p \<or> includes_str cs p)"


section \<open>Regular expressions\<close>

text \<open>
  The regular expressions of the program, as abstract syntax, with the backtracking
  semantics of ECMAScript: a matcher returns every way of matching at a position, in the
  order in which backtracking tries them, and the first one is the match.
\<close>

datatype cclass = Digit | WordChar | Space | NonSpace | NotLowerAlnum

fun in_class :: "cclass \<Rightarrow> char \<Rightarrow> bool" where
  "in_class Digit c = is_digit c"
| "in_class WordChar c = is_word c"
| "in_class Space c = is_space c"
| "in_class NonSpace c = (\<not> is_space c)"
| "in_class NotLowerAlnum c = (\<not> is_lower_alnum c)"

datatype regex =
    Lit string              \<comment> \<open>a sequence of literal characters\<close>
  | Seq regex regex         \<comment> \<open>\<open>r1 r2\<close>\<close>
  | Alt regex regex         \<comment> \<open>\<open>r1|r2\<close>\<close>
  | Opt regex               \<comment> \<open>\<open>r?\<close>, greedy\<close>
  | One cclass              \<comment> \<open>one character of a class\<close>
  | Plus cclass             \<comment> \<open>\<open>c+\<close>, greedy\<close>
  | Star cclass             \<comment> \<open>\<open>c*\<close>, greedy\<close>
  | WordBoundary            \<comment> \<open>\<open>\b\<close>\<close>
  | Bol                     \<comment> \<open>\<open>^\<close> (no flag \<open>m\<close>)\<close>
  | Eol                     \<comment> \<open>\<open>$\<close> (no flag \<open>m\<close>)\<close>
  | Group nat regex         \<comment> \<open>capturing group number \<open>n\<close>\<close>

text \<open>
  A matcher state: the character before the position (\<open>None\<close> at the start of the
  input), the input from the position on, and the groups captured so far.
\<close>

type_synonym mstate = "char option \<times> string \<times> (nat \<times> string) list"

fun lit_match :: "bool \<Rightarrow> string \<Rightarrow> char option \<Rightarrow> string \<Rightarrow> (char option \<times> string) option" where
  "lit_match ic [] prev s = Some (prev, s)"
| "lit_match ic (p # ps) prev [] = None"
| "lit_match ic (p # ps) prev (c # cs) =
     (if chr_eq ic p c then lit_match ic ps (Some c) cs else None)"

fun greedy :: "(char \<Rightarrow> bool) \<Rightarrow> char option \<Rightarrow> string \<Rightarrow> (char option \<times> string) list" where
  \<comment> \<open>the positions after zero or more characters of a class, the longest run first\<close>
  "greedy P prev [] = [(prev, [])]"
| "greedy P prev (c # cs) =
     (if P c then greedy P (Some c) cs @ [(prev, c # cs)] else [(prev, c # cs)])"

definition at_boundary :: "char option \<Rightarrow> string \<Rightarrow> bool" where
  "at_boundary prev s =
     ((case prev of None \<Rightarrow> False | Some c \<Rightarrow> is_word c)
        \<noteq> (case s of [] \<Rightarrow> False | c # _ \<Rightarrow> is_word c))"

fun rx_all :: "bool \<Rightarrow> regex \<Rightarrow> mstate \<Rightarrow> mstate list" where
  "rx_all ic (Lit p) (prev, s, caps) =
     (case lit_match ic p prev s of None \<Rightarrow> [] | Some (prev', s') \<Rightarrow> [(prev', s', caps)])"
| "rx_all ic (Seq r1 r2) st = concat (map (rx_all ic r2) (rx_all ic r1 st))"
| "rx_all ic (Alt r1 r2) st = rx_all ic r1 st @ rx_all ic r2 st"
| "rx_all ic (Opt r) st = rx_all ic r st @ [st]"
| "rx_all ic (One cl) (prev, s, caps) =
     (case s of [] \<Rightarrow> [] | c # cs \<Rightarrow> if in_class cl c then [(Some c, cs, caps)] else [])"
| "rx_all ic (Plus cl) (prev, s, caps) =
     (case s of [] \<Rightarrow> []
      | c # cs \<Rightarrow> if in_class cl c
                 then map (\<lambda>(prev', s'). (prev', s', caps)) (greedy (in_class cl) (Some c) cs)
                 else [])"
| "rx_all ic (Star cl) (prev, s, caps) =
     map (\<lambda>(prev', s'). (prev', s', caps)) (greedy (in_class cl) prev s)"
| "rx_all ic WordBoundary (prev, s, caps) = (if at_boundary prev s then [(prev, s, caps)] else [])"
| "rx_all ic Bol (prev, s, caps) = (if prev = None then [(prev, s, caps)] else [])"
| "rx_all ic Eol (prev, s, caps) = (if s = [] then [(prev, s, caps)] else [])"
| "rx_all ic (Group n r) (prev, s, caps) =
     map (\<lambda>(prev', s', caps'). (prev', s', caps' @ [(n, take (length s - length s') s)]))
       (rx_all ic r (prev, s, caps))"

definition rx_at :: "bool \<Rightarrow> regex \<Rightarrow> char option \<Rightarrow> string \<Rightarrow> mstate option" where
  \<comment> \<open>the match that starts at this position, if there is one\<close>
  "rx_at ic r prev s = (case rx_all ic r (prev, s, []) of [] \<Rightarrow> None | st # _ \<Rightarrow> Some st)"

fun rx_search :: "bool \<Rightarrow> regex \<Rightarrow> char option \<Rightarrow> string \<Rightarrow> (string \<times> (nat \<times> string) list) option" where
  \<comment> \<open>the leftmost match: the matched text and the captured groups\<close>
  "rx_search ic r prev [] =
     (case rx_at ic r prev [] of None \<Rightarrow> None | Some (_, _, caps) \<Rightarrow> Some ([], caps))"
| "rx_search ic r prev (c # cs) =
     (case rx_at ic r prev (c # cs) of
        Some (_, s', caps) \<Rightarrow> Some (take (length (c # cs) - length s') (c # cs), caps)
      | None \<Rightarrow> rx_search ic r (Some c) cs)"

definition rx_test :: "bool \<Rightarrow> regex \<Rightarrow> string \<Rightarrow> bool" where
  \<comment> \<open>\<open>RegExp.prototype.test\<close>\<close>
  "rx_test ic r s = (rx_search ic r None s \<noteq> None)"

definition rx_match :: "bool \<Rightarrow> regex \<Rightarrow> string \<Rightarrow> (nat \<Rightarrow> string option) option" where
  \<comment> \<open>\<open>String.prototype.match\<close> without flag \<open>g\<close>: \<open>m[0]\<close> is the matched text,
      \<open>m[n]\<close> the text of group \<open>n\<close>\<close>
  "rx_match ic r s =
     (case rx_search ic r None s of None \<Rightarrow> None
      | Some (m0, caps) \<Rightarrow> Some ((map_of caps)(0 \<mapsto> m0)))"

function rx_replace :: "bool \<Rightarrow> regex \<Rightarrow> string \<Rightarrow> char option \<Rightarrow> string \<Rightarrow> string" where
  \<comment> \<open>\<open>String.prototype.replace\<close> with flag \<open>g\<close> and a replacement text without \<open>$\<close>:
      after an empty match the scan moves on by one character\<close>
  "rx_replace ic r rep prev s =
     (case rx_at ic r prev s of
        None \<Rightarrow> (case s of [] \<Rightarrow> [] | c # cs \<Rightarrow> c # rx_replace ic r rep (Some c) cs)
      | Some (prev', s', _) \<Rightarrow>
          if length s' < length s then rep @ rx_replace ic r rep prev' s'
          else (case s of [] \<Rightarrow> rep | c # cs \<Rightarrow> rep @ c # rx_replace ic r rep (Some c) cs))"
  by pat_completeness auto
termination
  by (relation "measure (\<lambda>(ic, r, rep, prev, s). length s)") auto

definition replace_all :: "bool \<Rightarrow> regex \<Rightarrow> string \<Rightarrow> string \<Rightarrow> string" where
  \<comment> \<open>\<open>s.replace(/r/g, rep)\<close>, the scan starting at the beginning of \<open>s\<close>\<close>
  "replace_all ic r rep s = rx_replace ic r rep None s"


section \<open>Numbers\<close>

text \<open>
  A JavaScript number is modelled by its exact value, a rational, or \<open>NaN\<close>; the
  rounding of IEEE doubles (a relative error of at most \<open>2\<^sup>-\<^sup>5\<^sup>3\<close> for each operation) is
  left out.
\<close>

datatype number = NaN | Num rat

definition digit_val :: "char \<Rightarrow> nat" where
  "digit_val c = of_char c - 48"

definition digits_val :: "string \<Rightarrow> nat" where
  "digits_val ds = foldl (\<lambda>n c. 10 * n + digit_val c) 0 ds"

definition parseFloat :: "string \<Rightarrow> number" where
  \<comment> \<open>on the texts the distance patterns capture: decimal digits, then optionally a
      point and decimal digits; \<open>NaN\<close> when the text starts with neither\<close>
  "parseFloat s =
     (let ip = takeWhile is_digit s;
          fp = (case dropWhile is_digit s of
                  c # f \<Rightarrow> if c = CHR ''.'' then takeWhile is_digit f else []
                | [] \<Rightarrow> [])
      in if ip = [] \<and> fp = [] then NaN
         else Num (of_nat (digits_val ip) + of_nat (digits_val fp) / 10 ^ length fp))"

definition divide_number :: "number \<Rightarrow> rat \<Rightarrow> number" where
  "divide_number x d = (case x of NaN \<Rightarrow> NaN | Num q \<Rightarrow> Num (q / d))"


section \<open>The class Tweet\<close>

text \<open>
  The getters below read the field \<open>text\<close> (here \<open>tweet_text\<close>) only; the field \<open>time\<close> (a \<open>Date\<close>) is
  read by none of them and is left out of the record.
\<close>

record Tweet =
  tweet_text :: string

definition new_Tweet :: "string \<Rightarrow> Tweet" where
  \<comment> \<open>the constructor: \<open>this.text = (tweet_text ?? "").trim()\<close>\<close>
  "new_Tweet raw = \<lparr>tweet_text = trim raw\<rparr>"

subsection \<open>\<open>stripped\<close>\<close>

definition tag_rx1 :: regex where
  \<comment> \<open>\<open>/#Runkeeper/gi\<close>\<close>
  "tag_rx1 = Lit ''#Runkeeper''"

definition tag_rx2 :: regex where
  \<comment> \<open>\<open>/#RunKeeper/gi\<close>\<close>
  "tag_rx2 = Lit ''#RunKeeper''"

definition url_rx :: regex where
  \<comment> \<open>\<open>/https?:\/\/\S+/g\<close>\<close>
  "url_rx = Seq (Lit ''http'') (Seq (Opt (Lit ''s'')) (Seq (Lit ''://'') (Plus NonSpace)))"

definition via_rx :: regex where
  \<comment> \<open>\<open>/via @?runkeeper/gi\<close>\<close>
  "via_rx = Seq (Lit ''via '') (Seq (Opt (Lit ''@'')) (Lit ''runkeeper''))"

definition spaces_rx :: regex where
  \<comment> \<open>\<open>/\s+/g\<close>\<close>
  "spaces_rx = Plus Space"

definition quote_rx :: regex where
  \<comment> \<open>\<open>/^"|"$/g\<close>; the double quote is the character 0x22\<close>
  "quote_rx = Alt (Seq Bol (Lit [CHR 0x22])) (Seq (Lit [CHR 0x22]) Eol)"

definition stripped :: "Tweet \<Rightarrow> string" where
  "stripped tw =
     (let s = trim (replace_all True via_rx []
                (replace_all False url_rx []
                  (replace_all True tag_rx2 []
                    (replace_all True tag_rx1 [] (tweet_text tw)))));
          s = trim (replace_all False quote_rx [] (replace_all False spaces_rx '' '' s))
      in s)"

subsection \<open>\<open>source\<close>\<close>

definition live_rx :: regex where
  \<comment> \<open>\<open>/\bis (running|biking|walking|skiing|swimming)\b/\<close>\<close>
  "live_rx =
     Seq WordBoundary (Seq (Lit ''is '')
       (Seq (Group 1 (Alt (Lit ''running'') (Alt (Lit ''biking'') (Alt (Lit ''walking'')
               (Alt (Lit ''skiing'') (Lit ''swimming''))))))
            WordBoundary))"

definition looksCompleted :: "string \<Rightarrow> bool" where
  "looksCompleted t =
     (startsWith t ''just completed'' \<or> startsWith t ''i just '' \<or>
      includes_str t '' completed a '' \<or> includes_str t '' completed an '')"

definition looksLive :: "string \<Rightarrow> bool" where
  "looksLive t = (startsWith t ''just posted'' \<or> rx_test False live_rx t)"

definition looksAchievement :: "string \<Rightarrow> bool" where
  "looksAchievement t =
     (includes_str t ''new personal record'' \<or> includes_str t ''pr!'' \<or>
      includes_str t ''achieved'' \<or> includes_str t ''set a goal'' \<or>
      includes_str t ''achievement'')"

definition source :: "Tweet \<Rightarrow> string" where
  "source tw =
     (let t = toLowerCase (tweet_text tw)
      in if looksCompleted t then ''completed_event''
         else if looksLive t then ''live_event''
         else if looksAchievement t then ''achievement''
         else ''miscellaneous'')"

subsection \<open>\<open>written\<close> and \<open>writtenText\<close>\<close>

definition templates :: "string list" where
  "templates =
     [''just completed'', ''just posted'', ''activity'', ''workout'',
      ''with runkeeper'', ''check it out'', ''distance'', ''time'', ''pace'',
      ''completed a'', ''completed an'', ''posted a'', ''posted an'',
      ''run'', ''walk'', ''bike'', ''ride'', ''swim'', ''hike'', ''elliptical'']"

definition word_rx :: "string \<Rightarrow> regex" where
  \<comment> \<open>\<open>new RegExp("\\b" + w + "\\b")\<close> for a \<open>w\<close> of letters and spaces\<close>
  "word_rx w = Seq WordBoundary (Seq (Lit w) WordBoundary)"

definition remove_templates :: "string \<Rightarrow> string" where
  \<comment> \<open>the loop over \<open>templates\<close>\<close>
  "remove_templates s = foldl (\<lambda>s w. replace_all False (word_rx w) '' '' s) s templates"

definition written :: "Tweet \<Rightarrow> bool" where
  "written tw =
     (let s = toLowerCase (stripped tw);
          s = remove_templates s;
          s = trim (replace_all False spaces_rx '' '' s);
          letters = replace_all False (One NotLowerAlnum) [] s
      in length letters \<ge> 3)"

definition writtenText :: "Tweet \<Rightarrow> string" where
  "writtenText tw = (if written tw then stripped tw else [])"

subsection \<open>\<open>activityType\<close> and \<open>distance\<close>\<close>

definition activity_map :: "(string \<times> string list) list" where
  \<comment> \<open>the object literal \<open>map\<close>; \<open>Object.entries\<close> lists its keys in this order\<close>
  "activity_map =
     [(''running'', [''run'', ''jog'', ''jogging'']),
      (''walking'', [''walk'', ''hike'', ''hiking'']),
      (''cycling'', [''bike'', ''biked'', ''biking'', ''ride'', ''rode'', ''cycling'']),
      (''swimming'', [''swim'', ''swam'', ''swimming'']),
      (''elliptical'', [''elliptical'']),
      (''rowing'', [''row'', ''rowing'']),
      (''yoga'', [''yoga''])]"

fun alias_found :: "string list \<Rightarrow> string \<Rightarrow> bool" where
  \<comment> \<open>the inner loop: some alias occurs in \<open>t\<close> as a whole word\<close>
  "alias_found [] t = False"
| "alias_found (a # as) t = (rx_test False (word_rx a) t \<or> alias_found as t)"

fun first_label :: "(string \<times> string list) list \<Rightarrow> string \<Rightarrow> string option" where
  \<comment> \<open>the outer loop: the label of the first entry with an alias in \<open>t\<close>\<close>
  "first_label [] t = None"
| "first_label ((label, aliases) # rest) t =
     (if alias_found aliases t then Some label else first_label rest t)"

definition fallback_rx :: regex where
  \<comment> \<open>\<open>/completed (?:a|an) (\w+)/\<close>\<close>
  "fallback_rx =
     Seq (Lit ''completed '') (Seq (Alt (Lit ''a'') (Lit ''an''))
       (Seq (Lit '' '') (Group 1 (Plus WordChar))))"

definition activityType :: "Tweet \<Rightarrow> string" where
  \<comment> \<open>\<open>m[1]\<close> is never \<open>undefined\<close>: group 1 is part of every match of
      \<open>fallback_rx\<close> (lemma \<open>fallback_group_1\<close>)\<close>
  "activityType tw =
     (if source tw \<noteq> ''completed_event'' then ''unknown''
      else let t = toLowerCase (tweet_text tw)
           in case first_label activity_map t of
                Some label \<Rightarrow> label
              | None \<Rightarrow>
                  (case rx_match False fallback_rx t of
                     Some m \<Rightarrow> (case m 1 of Some w \<Rightarrow> w | None \<Rightarrow> [])
                   | None \<Rightarrow> ''unknown''))"

definition number_rx :: regex where
  \<comment> \<open>\<open>(\d+(?:\.\d+)?)\<close>\<close>
  "number_rx = Group 1 (Seq (Plus Digit) (Opt (Seq (Lit ''.'') (Plus Digit))))"

definition miles_rx :: regex where
  \<comment> \<open>\<open>/(\d+(?:\.\d+)?)\s*(mi|mile|miles)\b/\<close>\<close>
  "miles_rx =
     Seq number_rx (Seq (Star Space)
       (Seq (Group 2 (Alt (Lit ''mi'') (Alt (Lit ''mile'') (Lit ''miles'')))) WordBoundary))"

definition km_rx :: regex where
  \<comment> \<open>\<open>/(\d+(?:\.\d+)?)\s*(km|kilometer|kilometers)\b/\<close>\<close>
  "km_rx =
     Seq number_rx (Seq (Star Space)
       (Seq (Group 2 (Alt (Lit ''km'') (Alt (Lit ''kilometer'') (Lit ''kilometers''))))
            WordBoundary))"

definition group_number :: "(nat \<Rightarrow> string option) \<Rightarrow> nat \<Rightarrow> number" where
  \<comment> \<open>\<open>parseFloat(m[n])\<close>; \<open>parseFloat(undefined)\<close> is \<open>NaN\<close>\<close>
  "group_number m n = (case m n of None \<Rightarrow> NaN | Some d \<Rightarrow> parseFloat d)"

definition distance :: "Tweet \<Rightarrow> number" where
  "distance tw =
     (if source tw \<noteq> ''completed_event'' then Num 0
      else let t = toLowerCase (tweet_text tw)
           in case rx_match False miles_rx t of
                Some m \<Rightarrow> group_number m 1
              | None \<Rightarrow>
                  (case rx_match False km_rx t of
                     Some m \<Rightarrow> divide_number (group_number m 1) 1.609
                   | None \<Rightarrow> Num 0))"


section \<open>Derived notions used in the statements\<close>

definition normalize_text :: "string \<Rightarrow> string" where
  \<comment> \<open>the normalized text of a post: \<open>stripped()\<close> of the tweet built from it\<close>
  "normalize_text raw = stripped (new_Tweet raw)"

definition residue :: "Tweet \<Rightarrow> string" where
  \<comment> \<open>what \<open>written\<close> has after its loop over \<open>templates\<close>\<close>
  "residue tw = remove_templates (toLowerCase (stripped tw))"

definition alnum_count :: "string \<Rightarrow> nat" where
  \<comment> \<open>the number of characters of \<open>[a-z0-9]\<close>\<close>
  "alnum_count s = length (filter is_lower_alnum s)"

definition close_to :: "number \<Rightarrow> rat \<Rightarrow> rat \<Rightarrow> bool" where
  \<comment> \<open>a number within \<open>eps\<close> of \<open>c\<close>\<close>
  "close_to x c eps = (case x of NaN \<Rightarrow> False | Num q \<Rightarrow> \<bar>q - c\<bar> \<le> eps)"

function collapse :: "string \<Rightarrow> string" where
  \<comment> \<open>every run of whitespace becomes one space: what \<open>replace(/\s+/g, " ")\<close> computes\<close>
  "collapse [] = []"
| "collapse (c # cs) =
     (if is_space c then CHR '' '' # collapse (dropWhile is_space cs) else c # collapse cs)"
  by pat_completeness auto
termination
  by (relation "measure length") (auto simp: less_Suc_eq_le length_dropWhile_le)

fun single_spaced :: "string \<Rightarrow> bool" where
  \<comment> \<open>the only whitespace is the space character, and no two are adjacent\<close>
  "single_spaced [] = True"
| "single_spaced [c] = (is_space c \<longrightarrow> c = CHR '' '')"
| "single_spaced (c # d # cs) =
     ((is_space c \<longrightarrow> c = CHR '' '' \<and> \<not> is_space d) \<and> single_spaced (d # cs))"

definition strip_end :: "string \<Rightarrow> string" where
  \<comment> \<open>without its last character when that is a double quote\<close>
  "strip_end s = (if s \<noteq> [] \<and> last s = CHR 0x22 then butlast s else s)"

definition after :: "string \<Rightarrow> char option \<Rightarrow> char option" where
  \<comment> \<open>the character before the position, once \<open>l\<close> has been read\<close>
  "after l prev = (if l = [] then prev else Some (last l))"

declare rx_replace.simps [simp del]


section \<open>Facts about the matcher\<close>

lemma rx_search_Cons_None:
  "rx_search ic r prev (c # cs) = None \<longleftrightarrow> rx_at ic r prev (c # cs) = None \<and> rx_search ic r (Some c) cs = None"
  by (auto split: option.splits prod.splits)

lemma rx_search_Nil_None:
  "rx_search ic r prev [] = None \<longleftrightarrow> rx_at ic r prev [] = None"
  by (auto split: option.splits prod.splits)

lemma rx_replace_no_match:
  "rx_search ic r prev s = None \<Longrightarrow> rx_replace ic r rep prev s = s"
proof (induction s arbitrary: prev)
  case Nil
  then have "rx_at ic r prev [] = None" by (simp only: rx_search_Nil_None)
  then show ?case by (subst rx_replace.simps) simp
next
  case (Cons c cs)
  then have a: "rx_at ic r prev (c # cs) = None" and b: "rx_search ic r (Some c) cs = None"
    by (simp_all only: rx_search_Cons_None)
  from Cons.IH [OF b] a show ?case by (subst rx_replace.simps) simp
qed

lemma rx_replace_One:
  "rx_replace ic (One cl) [] prev s = filter (\<lambda>c. \<not> in_class cl c) s"
proof (induction s arbitrary: prev)
  case Nil
  show ?case by (subst rx_replace.simps) (simp add: rx_at_def)
next
  case (Cons c cs)
  show ?case by (subst rx_replace.simps) (simp add: rx_at_def Cons.IH)
qed

lemma greedy_hd:
  "\<exists>p rest. greedy P prev s = (p, dropWhile P s) # rest"
  by (induction s arbitrary: prev) (auto, metis append_Cons)

lemma rx_at_Plus:
  "rx_at ic (Plus cl) prev s =
     (case s of [] \<Rightarrow> None
      | c # cs \<Rightarrow> if in_class cl c
                 then Some (fst (hd (greedy (in_class cl) (Some c) cs)), dropWhile (in_class cl) cs, [])
                 else None)"
proof (cases s)
  case Nil
  then show ?thesis by (simp add: rx_at_def)
next
  case (Cons c cs)
  obtain p rest where g: "greedy (in_class cl) (Some c) cs = (p, dropWhile (in_class cl) cs) # rest"
    using greedy_hd by blast
  show ?thesis by (simp add: Cons rx_at_def g)
qed

lemma in_class_Space [simp]: "in_class Space = is_space"
  by (rule ext) simp

lemma rx_replace_spaces:
  "rx_replace ic spaces_rx '' '' prev s = collapse s"
proof (induction s arbitrary: prev rule: collapse.induct)
  case 1
  show ?case by (subst rx_replace.simps) (simp add: rx_at_Plus spaces_rx_def)
next
  case (2 c cs)
  show ?case
  proof (cases "is_space c")
    case True
    have "length (dropWhile is_space cs) < Suc (length cs)"
      using length_dropWhile_le [of is_space cs] by simp
    with True 2 show ?thesis
      by (subst rx_replace.simps) (simp add: rx_at_Plus spaces_rx_def)
  next
    case False
    with 2 show ?thesis
      by (subst rx_replace.simps) (simp add: rx_at_Plus spaces_rx_def)
  qed
qed



section \<open>Facts about whitespace and counting\<close>

lemma filter_dropWhile_disjoint:
  "(\<And>c. Q c \<Longrightarrow> \<not> P c) \<Longrightarrow> filter Q (dropWhile P s) = filter Q s"
  by (induction s) auto

lemma lower_alnum_not_space: "is_lower_alnum c \<Longrightarrow> \<not> is_space c"
  by (auto simp: is_lower_alnum_def is_lower_def is_digit_def is_space_def)

lemma filter_alnum_trim: "filter is_lower_alnum (trim s) = filter is_lower_alnum s"
proof -
  have "filter is_lower_alnum (trim s)
          = rev (filter is_lower_alnum (dropWhile is_space (rev (dropWhile is_space s))))"
    by (simp add: trim_def rev_filter)
  also have "\<dots> = rev (filter is_lower_alnum (rev (dropWhile is_space s)))"
    by (simp add: filter_dropWhile_disjoint lower_alnum_not_space)
  also have "\<dots> = filter is_lower_alnum (dropWhile is_space s)"
    by (simp add: rev_filter)
  also have "\<dots> = filter is_lower_alnum s"
    by (simp add: filter_dropWhile_disjoint lower_alnum_not_space)
  finally show ?thesis .
qed

lemma filter_alnum_collapse: "filter is_lower_alnum (collapse s) = filter is_lower_alnum s"
proof (induction s rule: collapse.induct)
  case 1
  show ?case by simp
next
  case (2 c cs)
  have sp: "\<not> is_lower_alnum CHR '' ''"
    by (simp add: is_lower_alnum_def is_lower_def is_digit_def)
  show ?case
  proof (cases "is_space c")
    case True
    then have "\<not> is_lower_alnum c" using lower_alnum_not_space by blast
    with True 2 sp show ?thesis
      by (simp add: filter_dropWhile_disjoint lower_alnum_not_space)
  next
    case False
    with 2 show ?thesis by simp
  qed
qed

lemma written_count: "written tw = (3 \<le> alnum_count (residue tw))"
  by (simp add: written_def replace_all_def rx_replace_One rx_replace_spaces
      filter_alnum_trim filter_alnum_collapse alnum_count_def residue_def)

lemma trim_padded:
  assumes w1: "\<forall>c\<in>set w1. is_space c" and w2: "\<forall>c\<in>set w2. is_space c"
  shows "trim (w1 @ t @ w2) = trim t"
proof -
  have a: "dropWhile is_space (w1 @ t @ w2) = dropWhile is_space (t @ w2)"
    using w1 by simp
  have b: "dropWhile is_space (rev (dropWhile is_space (t @ w2)))
             = dropWhile is_space (rev (dropWhile is_space t))"
  proof (cases "\<forall>c\<in>set t. is_space c")
    case True
    then have e1: "dropWhile is_space t = []" by simp
    from True w2 have e2: "dropWhile is_space (t @ w2) = []" by auto
    show ?thesis by (simp only: e1 e2)
  next
    case False
    then obtain x where "x \<in> set t" "\<not> is_space x" by blast
    then have "dropWhile is_space (t @ w2) = dropWhile is_space t @ w2"
      by (rule dropWhile_append1)
    moreover have "dropWhile is_space (rev w2 @ rev (dropWhile is_space t))
        = dropWhile is_space (rev (dropWhile is_space t))"
      using w2 by (intro dropWhile_append2) simp
    ultimately show ?thesis by simp
  qed
  show ?thesis by (simp only: trim_def a b)
qed


section \<open>Facts about the activity table\<close>

lemma alias_found_iff: "alias_found as t \<longleftrightarrow> (\<exists>a\<in>set as. rx_test False (word_rx a) t)"
  by (induction as) auto

lemma first_label_found:
  "k < length tbl \<Longrightarrow> alias_found (snd (tbl ! k)) t \<Longrightarrow>
   \<exists>k'\<le>k. first_label tbl t = Some (fst (tbl ! k')) \<and> alias_found (snd (tbl ! k')) t \<and>
     (\<forall>m<k'. \<not> alias_found (snd (tbl ! m)) t)"
proof (induction tbl arbitrary: k)
  case Nil
  then show ?case by simp
next
  case (Cons e tbl)
  obtain label aliases where e: "e = (label, aliases)" by (cases e)
  show ?case
  proof (cases "alias_found aliases t")
    case True
    then have "first_label (e # tbl) t = Some (fst ((e # tbl) ! 0)) \<and>
        alias_found (snd ((e # tbl) ! 0)) t \<and> (\<forall>m<0. \<not> alias_found (snd ((e # tbl) ! m)) t)"
      by (simp add: e)
    then show ?thesis by blast
  next
    case False
    with Cons.prems e obtain k0 where k: "k = Suc k0"
      by (cases k) auto
    with Cons.prems have "k0 < length tbl" "alias_found (snd (tbl ! k0)) t" by simp_all
    from Cons.IH [OF this] obtain k' where k': "k' \<le> k0"
      "first_label tbl t = Some (fst (tbl ! k'))" "alias_found (snd (tbl ! k')) t"
      "\<forall>m<k'. \<not> alias_found (snd (tbl ! m)) t" by blast
    have "\<forall>m<Suc k'. \<not> alias_found (snd ((e # tbl) ! m)) t"
    proof (intro allI impI)
      fix m assume "m < Suc k'"
      then show "\<not> alias_found (snd ((e # tbl) ! m)) t"
        using False e k'(4) by (cases m) auto
    qed
    with k' False e k have "Suc k' \<le> k \<and> first_label (e # tbl) t = Some (fst ((e # tbl) ! Suc k')) \<and>
        alias_found (snd ((e # tbl) ! Suc k')) t \<and> (\<forall>m<Suc k'. \<not> alias_found (snd ((e # tbl) ! m)) t)"
      by simp
    then show ?thesis by blast
  qed
qed

lemma activity_labels_distinct: "distinct (map fst activity_map)"
  by (simp add: activity_map_def)



section \<open>Facts about \<open>stripped\<close>\<close>

lemma trim_split: "\<exists>w. s = rev (dropWhile P (rev s)) @ w"
proof -
  have "rev s = takeWhile P (rev s) @ dropWhile P (rev s)" by simp
  then have "rev (rev s) = rev (takeWhile P (rev s) @ dropWhile P (rev s))" by simp
  then have "s = rev (dropWhile P (rev s)) @ rev (takeWhile P (rev s))" by (simp only: rev_rev_ident rev_append)
  then show ?thesis by blast
qed

lemma trim_idem: "trim (trim x) = trim x"
proof -
  define z where "z = dropWhile is_space x"
  define y where "y = rev (dropWhile is_space (rev z))"
  have y: "trim x = y" by (simp add: trim_def y_def z_def)
  obtain w where w: "z = y @ w" using trim_split [of z is_space] by (auto simp: y_def)
  have hz: "z = [] \<or> \<not> is_space (hd z)"
    using hd_dropWhile [of is_space x] by (auto simp: z_def)
  have "dropWhile is_space y = y"
  proof (cases y)
    case Nil
    then show ?thesis by simp
  next
    case (Cons a ys)
    with w hz have "\<not> is_space a" by auto
    with Cons show ?thesis by simp
  qed
  moreover have "dropWhile is_space (rev y) = rev y" by (simp add: y_def)
  ultimately have "trim y = y" by (simp add: trim_def)
  with y show ?thesis by simp
qed

lemma single_spaced_tl: "single_spaced (c # cs) \<Longrightarrow> single_spaced cs"
  by (cases cs) auto

lemma single_spaced_dropWhile: "single_spaced s \<Longrightarrow> single_spaced (dropWhile P s)"
  by (induction s) (auto dest: single_spaced_tl)

lemma single_spaced_butlast: "single_spaced s \<Longrightarrow> single_spaced (butlast s)"
  by (induction s rule: single_spaced.induct) (auto split: if_splits)

lemma single_spaced_prefix: "single_spaced (y @ w) \<Longrightarrow> single_spaced y"
proof (induction w rule: rev_induct)
  case Nil
  then show ?case by simp
next
  case (snoc x xs)
  from snoc.prems have "single_spaced (butlast ((y @ xs) @ [x]))"
    by (intro single_spaced_butlast) simp
  then show ?case using snoc.IH by (simp only: butlast_snoc)
qed

lemma single_spaced_trim: "single_spaced s \<Longrightarrow> single_spaced (trim s)"
proof -
  assume "single_spaced s"
  then have a: "single_spaced (dropWhile is_space s)" by (rule single_spaced_dropWhile)
  obtain w where "dropWhile is_space s = trim s @ w"
    using trim_split [of "dropWhile is_space s" is_space] by (auto simp: trim_def)
  with a show ?thesis using single_spaced_prefix by metis
qed

lemma collapse_hd: "collapse s = [] \<longleftrightarrow> s = []"
  by (cases s) auto

lemma collapse_hd_space: "s \<noteq> [] \<Longrightarrow> is_space (hd (collapse s)) \<longleftrightarrow> is_space (hd s)"
  by (cases s) (auto simp: is_space_def)

lemma single_spaced_Cons:
  "single_spaced (c # s) \<longleftrightarrow>
     (is_space c \<longrightarrow> c = CHR '' '' \<and> (s = [] \<or> \<not> is_space (hd s))) \<and> single_spaced s"
  by (cases s) auto

lemma single_spaced_collapse: "single_spaced (collapse s)"
proof (induction s rule: collapse.induct)
  case 1
  show ?case by simp
next
  case (2 c cs)
  show ?case
  proof (cases "is_space c")
    case True
    have "dropWhile is_space cs = [] \<or> \<not> is_space (hd (dropWhile is_space cs))"
      using hd_dropWhile [of is_space cs] by blast
    then have "collapse (dropWhile is_space cs) = [] \<or> \<not> is_space (hd (collapse (dropWhile is_space cs)))"
      using collapse_hd collapse_hd_space by blast
    with True 2 show ?thesis by (simp add: single_spaced_Cons is_space_def)
  next
    case False
    with 2 show ?thesis by (simp add: single_spaced_Cons)
  qed
qed

lemma collapse_single_spaced: "single_spaced s \<Longrightarrow> collapse s = s"
proof (induction s rule: collapse.induct)
  case 1
  show ?case by simp
next
  case (2 c cs)
  from "2.prems" have cs: "single_spaced cs" by (rule single_spaced_tl)
  show ?case
  proof (cases "is_space c")
    case True
    with "2.prems" have c: "c = CHR '' ''" and d: "cs = [] \<or> \<not> is_space (hd cs)"
      by (simp_all add: single_spaced_Cons)
    from d have "dropWhile is_space cs = cs" by (cases cs) auto
    with True c cs 2 show ?thesis by simp
  next
    case False
    with cs 2 show ?thesis by simp
  qed
qed


lemma rx_at_quote_inner:
  "rx_at False quote_rx (Some p) s =
     (if s = [CHR 0x22] then Some (Some CHR 0x22, [], []) else None)"
proof (cases s)
  case Nil
  then show ?thesis by (simp add: rx_at_def quote_rx_def)
next
  case (Cons c cs)
  then show ?thesis
    by (cases cs) (simp_all add: rx_at_def quote_rx_def chr_eq_def)
qed

lemma rx_at_quote_start:
  "rx_at False quote_rx None s =
     (case s of [] \<Rightarrow> None
      | c # cs \<Rightarrow> if c = CHR 0x22 then Some (Some CHR 0x22, cs, []) else None)"
proof (cases s)
  case Nil
  then show ?thesis by (simp add: rx_at_def quote_rx_def)
next
  case (Cons c cs)
  then show ?thesis
    by (cases cs) (simp_all add: rx_at_def quote_rx_def chr_eq_def)
qed

lemma rx_replace_quote_inner:
  "rx_replace False quote_rx [] (Some p) s = strip_end s"
proof (induction s arbitrary: p)
  case Nil
  show ?case by (subst rx_replace.simps) (simp add: rx_at_quote_inner strip_end_def)
next
  case (Cons c cs)
  show ?case
  proof (cases "c # cs = [CHR 0x22]")
    case True
    have "rx_replace False quote_rx [] (Some CHR 0x22) [] = []"
      by (subst rx_replace.simps) (simp add: rx_at_quote_inner)
    with True show ?thesis
      by (subst rx_replace.simps) (simp add: rx_at_quote_inner strip_end_def)
  next
    case False
    then have "rx_at False quote_rx (Some p) (c # cs) = None"
      by (simp only: rx_at_quote_inner if_False)
    then have "rx_replace False quote_rx [] (Some p) (c # cs) = c # strip_end cs"
      by (subst rx_replace.simps) (simp add: Cons.IH)
    also from False have "\<dots> = strip_end (c # cs)"
      by (cases cs) (auto simp: strip_end_def)
    finally show ?thesis .
  qed
qed

lemma replace_all_quote:
  "replace_all False quote_rx [] s =
     (case s of [] \<Rightarrow> []
      | c # cs \<Rightarrow> if c = CHR 0x22 then strip_end cs else strip_end (c # cs))"
proof (cases s)
  case Nil
  then show ?thesis
    unfolding replace_all_def by (subst rx_replace.simps) (simp add: rx_at_quote_start)
next
  case (Cons c cs)
  show ?thesis
  proof (cases "c = CHR 0x22")
    case True
    with Cons show ?thesis
      unfolding replace_all_def
      by (subst rx_replace.simps) (simp add: rx_at_quote_start rx_replace_quote_inner)
  next
    case False
    with Cons have "replace_all False quote_rx [] s = c # strip_end cs"
      unfolding replace_all_def
      by (subst rx_replace.simps) (simp add: rx_at_quote_start rx_replace_quote_inner)
    also from False have "\<dots> = strip_end (c # cs)"
      by (cases cs) (auto simp: strip_end_def)
    finally show ?thesis using Cons False by simp
  qed
qed

lemma single_spaced_strip_end: "single_spaced s \<Longrightarrow> single_spaced (strip_end s)"
  by (simp add: strip_end_def single_spaced_butlast)

lemma single_spaced_quote:
  "single_spaced s \<Longrightarrow> single_spaced (replace_all False quote_rx [] s)"
  by (cases s) (auto simp: replace_all_quote single_spaced_strip_end dest: single_spaced_tl)

lemma replace_all_spaces: "replace_all ic spaces_rx '' '' s = collapse s"
  by (simp add: replace_all_def rx_replace_spaces)

lemma replace_all_no_match:
  assumes "\<not> rx_test ic r s"
  shows "replace_all ic r rep s = s"
proof -
  from assms have "rx_search ic r None s = None"
    by (simp only: rx_test_def not_not)
  then show ?thesis
    unfolding replace_all_def by (rule rx_replace_no_match)
qed

lemma stripped_normal: "single_spaced (stripped tw) \<and> trim (stripped tw) = stripped tw"
  by (simp add: stripped_def replace_all_spaces single_spaced_trim single_spaced_quote
      single_spaced_collapse trim_idem)

lemma lit_match_ignore_case:
  "map canonicalize p = map canonicalize q \<Longrightarrow> lit_match True p prev s = lit_match True q prev s"
proof (induction p arbitrary: q prev s)
  case Nil
  then show ?case by simp
next
  case (Cons a p)
  then obtain b q' where q: "q = b # q'" by (cases q) auto
  with Cons.prems have ab: "canonicalize a = canonicalize b"
    and rest: "map canonicalize p = map canonicalize q'" by simp_all
  show ?case
  proof (cases s)
    case Nil
    with q show ?thesis by simp
  next
    case (Cons c cs)
    with q ab Cons.IH [OF rest] show ?thesis by (simp add: chr_eq_def)
  qed
qed

lemma rx_at_tag: "rx_at True tag_rx2 prev s = rx_at True tag_rx1 prev s"
proof -
  have "map canonicalize ''#RunKeeper'' = map canonicalize ''#Runkeeper''"
    by code_simp
  from lit_match_ignore_case [OF this] show ?thesis
    by (simp add: rx_at_def tag_rx1_def tag_rx2_def)
qed

lemma rx_search_tag: "rx_search True tag_rx2 prev s = rx_search True tag_rx1 prev s"
  by (induction s arbitrary: prev) (simp_all add: rx_at_tag split: option.splits)

lemma rx_test_tag: "rx_test True tag_rx2 s = rx_test True tag_rx1 s"
  by (simp add: rx_test_def rx_search_tag)


section \<open>What the matcher accepts\<close>

lemma lit_match_iff:
  "lit_match False l prev s = Some (p', s') \<longleftrightarrow> s = l @ s' \<and> p' = after l prev"
proof (induction l arbitrary: prev s)
  case Nil
  show ?case by (auto simp: after_def)
next
  case (Cons a l)
  show ?case
  proof (cases s)
    case Nil
    then show ?thesis by simp
  next
    case (Cons c cs)
    with Cons.IH [of "Some c" cs] show ?thesis
      by (auto simp: chr_eq_def after_def)
  qed
qed

lemma mem_Lit:
  "(p', s', c') \<in> set (rx_all False (Lit l) (p, s, c)) \<longleftrightarrow>
     s = l @ s' \<and> p' = after l p \<and> c' = c"
proof (cases "lit_match False l p s")
  case None
  with lit_match_iff [of l p s] show ?thesis by auto
next
  case (Some a)
  obtain q r where a: "a = (q, r)" by (cases a)
  with Some lit_match_iff [of l p s q r] show ?thesis by auto
qed

lemma mem_greedy:
  "(p', s') \<in> set (greedy P p s) \<longleftrightarrow>
     (\<exists>run. s = run @ s' \<and> (\<forall>x\<in>set run. P x) \<and> p' = after run p)"
proof (induction s arbitrary: p)
  case Nil
  show ?case by (auto simp: after_def)
next
  case (Cons c cs)
  show ?case
  proof (cases "P c")
    case False
    then have "(\<exists>run. c # cs = run @ s' \<and> (\<forall>x\<in>set run. P x) \<and> p' = after run p)
        \<longleftrightarrow> s' = c # cs \<and> p' = p"
      by (auto simp: after_def Cons_eq_append_conv)
    with False show ?thesis by auto
  next
    case True
    have "(\<exists>run. c # cs = run @ s' \<and> (\<forall>x\<in>set run. P x) \<and> p' = after run p)
        \<longleftrightarrow> (s' = c # cs \<and> p' = p) \<or>
            (\<exists>run. cs = run @ s' \<and> (\<forall>x\<in>set run. P x) \<and> p' = after run (Some c))"
      (is "?L \<longleftrightarrow> ?A \<or> ?B")
    proof
      assume ?L
      then obtain run where r: "c # cs = run @ s'" "\<forall>x\<in>set run. P x" "p' = after run p"
        by blast
      show "?A \<or> ?B"
      proof (cases run)
        case Nil
        with r show ?thesis by (simp add: after_def)
      next
        case (Cons d run')
        with r have "cs = run' @ s'" "\<forall>x\<in>set run'. P x" "p' = after run' (Some c)"
          by (auto simp: after_def)
        then show ?thesis by blast
      qed
    next
      assume "?A \<or> ?B"
      then show ?L
      proof
        assume ?A
        then have "c # cs = [] @ s' \<and> (\<forall>x\<in>set []. P x) \<and> p' = after [] p"
          by (simp add: after_def)
        then show ?L by blast
      next
        assume ?B
        then obtain run where "cs = run @ s'" "\<forall>x\<in>set run. P x" "p' = after run (Some c)"
          by blast
        with True have "c # cs = (c # run) @ s' \<and> (\<forall>x\<in>set (c # run). P x) \<and> p' = after (c # run) p"
          by (auto simp: after_def)
        then show ?L by blast
      qed
    qed
    with True Cons.IH [of "Some c"] show ?thesis by auto
  qed
qed

lemma mem_Star:
  "(p', s', c') \<in> set (rx_all ic (Star cl) (p, s, c)) \<longleftrightarrow>
     (\<exists>run. s = run @ s' \<and> (\<forall>x\<in>set run. in_class cl x) \<and> p' = after run p) \<and> c' = c"
  using mem_greedy [of p' s' "in_class cl" p s] by auto

lemma mem_Plus:
  "(p', s', c') \<in> set (rx_all ic (Plus cl) (p, s, c)) \<longleftrightarrow>
     (\<exists>run. run \<noteq> [] \<and> s = run @ s' \<and> (\<forall>x\<in>set run. in_class cl x) \<and> p' = Some (last run)) \<and> c' = c"
proof (cases s)
  case Nil
  then show ?thesis by auto
next
  case (Cons d ds)
  show ?thesis
  proof (cases "in_class cl d")
    case False
    with Cons show ?thesis by (auto simp: Cons_eq_append_conv)
  next
    case True
    have "(\<exists>run. run \<noteq> [] \<and> d # ds = run @ s' \<and> (\<forall>x\<in>set run. in_class cl x) \<and> p' = Some (last run))
      \<longleftrightarrow> (\<exists>run. ds = run @ s' \<and> (\<forall>x\<in>set run. in_class cl x) \<and> p' = after run (Some d))"
      (is "?L \<longleftrightarrow> ?R")
    proof
      assume ?L
      then obtain run where r: "run \<noteq> []" "d # ds = run @ s'" "\<forall>x\<in>set run. in_class cl x"
        "p' = Some (last run)" by blast
      then obtain run' where "run = d # run'" by (cases run) auto
      with r have "ds = run' @ s' \<and> (\<forall>x\<in>set run'. in_class cl x) \<and> p' = after run' (Some d)"
        by (auto simp: after_def)
      then show ?R by blast
    next
      assume ?R
      then obtain run where "ds = run @ s'" "\<forall>x\<in>set run. in_class cl x" "p' = after run (Some d)"
        by blast
      with True have "d # run \<noteq> [] \<and> d # ds = (d # run) @ s' \<and>
          (\<forall>x\<in>set (d # run). in_class cl x) \<and> p' = Some (last (d # run))"
        by (auto simp: after_def)
      then show ?L by blast
    qed
    with True Cons mem_greedy [of p' s' "in_class cl" "Some d" ds] show ?thesis by auto
  qed
qed

lemma mem_Seq:
  "st' \<in> set (rx_all ic (Seq r1 r2) st) \<longleftrightarrow>
     (\<exists>st1\<in>set (rx_all ic r1 st). st' \<in> set (rx_all ic r2 st1))"
  by auto

lemma mem_Group:
  "(p', s', c') \<in> set (rx_all ic (Group n r) (p, s, c)) \<longleftrightarrow>
     (\<exists>c1. (p', s', c1) \<in> set (rx_all ic r (p, s, c)) \<and>
           c' = c1 @ [(n, take (length s - length s') s)])"
  by (auto intro: rev_image_eqI)


lemma mem_Opt:
  "st' \<in> set (rx_all ic (Opt r) st) \<longleftrightarrow> st' \<in> set (rx_all ic r st) \<or> st' = st"
  by auto

lemma mem_Alt:
  "st' \<in> set (rx_all ic (Alt r1 r2) st) \<longleftrightarrow>
     st' \<in> set (rx_all ic r1 st) \<or> st' \<in> set (rx_all ic r2 st)"
  by auto

lemma mem_WordBoundary:
  "st' \<in> set (rx_all ic WordBoundary (p, s, c)) \<longleftrightarrow> st' = (p, s, c) \<and> at_boundary p s"
  by auto

lemma rx_at_None: "rx_at ic r prev s = None \<longleftrightarrow> rx_all ic r (prev, s, []) = []"
  by (simp add: rx_at_def split: list.splits)

lemma rx_search_None:
  "rx_search ic r prev s = None \<longleftrightarrow>
     (\<forall>pre rest. s = pre @ rest \<longrightarrow> rx_all ic r (after pre prev, rest, []) = [])"
proof (induction s arbitrary: prev)
  case Nil
  show ?case by (simp only: rx_search_Nil_None rx_at_None) (simp add: after_def)
next
  case (Cons c cs)
  have "(\<forall>pre rest. c # cs = pre @ rest \<longrightarrow> rx_all ic r (after pre prev, rest, []) = [])
      \<longleftrightarrow> rx_all ic r (prev, c # cs, []) = [] \<and>
          (\<forall>pre rest. cs = pre @ rest \<longrightarrow> rx_all ic r (after pre (Some c), rest, []) = [])"
    (is "?L \<longleftrightarrow> ?A \<and> ?B")
  proof
    assume l: ?L
    from l [rule_format, of "[]" "c # cs"] have ?A by (simp add: after_def)
    moreover have ?B
    proof (intro allI impI)
      fix pre rest assume "cs = pre @ rest"
      then have "c # cs = (c # pre) @ rest" by simp
      from l [rule_format, OF this] show "rx_all ic r (after pre (Some c), rest, []) = []"
        by (cases pre) (simp_all add: after_def)
    qed
    ultimately show "?A \<and> ?B" ..
  next
    assume ab: "?A \<and> ?B"
    show ?L
    proof (intro allI impI)
      fix pre rest assume e: "c # cs = pre @ rest"
      show "rx_all ic r (after pre prev, rest, []) = []"
      proof (cases pre)
        case Nil
        with e ab show ?thesis by (simp add: after_def)
      next
        case (Cons d pre')
        with e have "cs = pre' @ rest" "d = c" by simp_all
        with ab have "rx_all ic r (after pre' (Some c), rest, []) = []" by blast
        with Cons \<open>d = c\<close> show ?thesis by (cases pre') (simp_all add: after_def)
      qed
    qed
  qed
  then show ?case by (simp only: rx_search_Cons_None rx_at_None Cons.IH)
qed


lemma at_boundary_after_word:
  "is_word w \<Longrightarrow> at_boundary (Some w) s \<longleftrightarrow> s = [] \<or> \<not> is_word (hd s)"
  by (cases s) (simp_all add: at_boundary_def)

lemma units_end_word:
  assumes "u \<in> {''mi'', ''mile'', ''miles''}"
  shows "at_boundary (after u p) s \<longleftrightarrow> s = [] \<or> \<not> is_word (hd s)"
proof -
  have w: "is_word CHR ''i''" "is_word CHR ''e''" "is_word CHR ''s''"
    by (simp_all add: is_word_def is_lower_def)
  from assms have "after u p = Some CHR ''i'' \<or> after u p = Some CHR ''e'' \<or> after u p = Some CHR ''s''"
    by (auto simp: after_def)
  with w show ?thesis using at_boundary_after_word by metis
qed

lemma mem_fraction:
  "(p', s', c') \<in> set (rx_all False (Opt (Seq (Lit ''.'') (Plus Digit))) (p, s, c)) \<longleftrightarrow>
     (\<exists>fr. s = fr @ s' \<and>
        (fr = [] \<or> (\<exists>fd. fr = CHR ''.'' # fd \<and> fd \<noteq> [] \<and> (\<forall>x\<in>set fd. is_digit x))) \<and>
        p' = after fr p) \<and> c' = c"
  (is "?L \<longleftrightarrow> ?R")
proof
  assume ?L
  then consider (skip) "(p', s', c') = (p, s, c)"
    | (frac) "(p', s', c') \<in> set (rx_all False (Seq (Lit ''.'') (Plus Digit)) (p, s, c))"
    by (auto simp only: mem_Opt)
  then show ?R
  proof cases
    case skip
    then have "s = [] @ s' \<and> p' = after [] p \<and> c' = c" by (simp add: after_def)
    then show ?thesis by blast
  next
    case frac
    then obtain p1 s1 c1 where a: "(p1, s1, c1) \<in> set (rx_all False (Lit ''.'') (p, s, c))"
      and b: "(p', s', c') \<in> set (rx_all False (Plus Digit) (p1, s1, c1))"
      by (auto simp only: mem_Seq)
    from a have s: "s = ''.'' @ s1" and c1: "c1 = c" by (simp_all only: mem_Lit)
    from b obtain fd where fd: "fd \<noteq> []" "s1 = fd @ s'" "\<forall>x\<in>set fd. in_class Digit x"
      "p' = Some (last fd)" "c' = c1" by (auto simp only: mem_Plus)
    then have "s = (CHR ''.'' # fd) @ s' \<and> (\<exists>fd'. CHR ''.'' # fd = CHR ''.'' # fd' \<and> fd' \<noteq> [] \<and>
        (\<forall>x\<in>set fd'. is_digit x)) \<and> p' = after (CHR ''.'' # fd) p \<and> c' = c"
      using s c1 by (auto simp: after_def)
    then show ?thesis by blast
  qed
next
  assume r: ?R
  then obtain fr where fr: "s = fr @ s'" "p' = after fr p" "c' = c"
    and shape: "fr = [] \<or> (\<exists>fd. fr = CHR ''.'' # fd \<and> fd \<noteq> [] \<and> (\<forall>x\<in>set fd. is_digit x))"
    by blast
  from shape show ?L
  proof
    assume "fr = []"
    with fr have "(p', s', c') = (p, s, c)" by (simp add: after_def)
    then show ?L by (simp only: mem_Opt) simp
  next
    assume "\<exists>fd. fr = CHR ''.'' # fd \<and> fd \<noteq> [] \<and> (\<forall>x\<in>set fd. is_digit x)"
    then obtain fd where fd: "fr = CHR ''.'' # fd" "fd \<noteq> []" "\<forall>x\<in>set fd. is_digit x" by blast
    have a: "(Some CHR ''.'', fd @ s', c) \<in> set (rx_all False (Lit ''.'') (p, s, c))"
      using fr fd by (simp only: mem_Lit) (simp add: after_def)
    have b: "(p', s', c') \<in> set (rx_all False (Plus Digit) (Some CHR ''.'', fd @ s', c))"
      using fr fd by (simp only: mem_Plus) (auto simp: after_def)
    from a b have "(p', s', c') \<in> set (rx_all False (Seq (Lit ''.'') (Plus Digit)) (p, s, c))"
      by (simp only: mem_Seq) blast
    then show ?L by (simp only: mem_Opt) simp
  qed
qed


lemma take_consumed: "take (length (m @ s') - length s') (m @ s') = m"
  by simp

lemma mem_number:
  "(p', s', c') \<in> set (rx_all False number_rx (p, s, c)) \<longleftrightarrow>
     (\<exists>ds fr. s = ds @ fr @ s' \<and> ds \<noteq> [] \<and> (\<forall>x\<in>set ds. is_digit x) \<and>
        (fr = [] \<or> (\<exists>fd. fr = CHR ''.'' # fd \<and> fd \<noteq> [] \<and> (\<forall>x\<in>set fd. is_digit x))) \<and>
        p' = after (ds @ fr) p \<and> c' = c @ [(1, ds @ fr)])"
  (is "?L \<longleftrightarrow> ?R")
proof
  assume ?L
  then obtain c1 where g: "(p', s', c1) \<in> set (rx_all False
        (Seq (Plus Digit) (Opt (Seq (Lit ''.'') (Plus Digit)))) (p, s, c))"
    and c': "c' = c1 @ [(1, take (length s - length s') s)]"
    unfolding number_rx_def by (auto simp only: mem_Group)
  from g obtain p1 s1 c2 where a: "(p1, s1, c2) \<in> set (rx_all False (Plus Digit) (p, s, c))"
    and b: "(p', s', c1) \<in> set (rx_all False (Opt (Seq (Lit ''.'') (Plus Digit))) (p1, s1, c2))"
    by (auto simp only: mem_Seq)
  from a obtain ds where ds: "ds \<noteq> []" "s = ds @ s1" "\<forall>x\<in>set ds. in_class Digit x"
    "p1 = Some (last ds)" "c2 = c" by (auto simp only: mem_Plus)
  from b obtain fr where fr: "s1 = fr @ s'" "p' = after fr p1" "c1 = c2"
    and shape: "fr = [] \<or> (\<exists>fd. fr = CHR ''.'' # fd \<and> fd \<noteq> [] \<and> (\<forall>x\<in>set fd. is_digit x))"
    by (auto simp only: mem_fraction)
  have s: "s = (ds @ fr) @ s'" using ds fr by simp
  have "take (length s - length s') s = ds @ fr"
    unfolding s by (rule take_consumed)
  with c' fr ds have cap: "c' = c @ [(1, ds @ fr)]" by simp
  have "p' = after (ds @ fr) p" using fr ds by (simp add: after_def)
  with s ds shape cap have "s = ds @ fr @ s' \<and> ds \<noteq> [] \<and> (\<forall>x\<in>set ds. is_digit x) \<and>
        (fr = [] \<or> (\<exists>fd. fr = CHR ''.'' # fd \<and> fd \<noteq> [] \<and> (\<forall>x\<in>set fd. is_digit x))) \<and>
        p' = after (ds @ fr) p \<and> c' = c @ [(1, ds @ fr)]" by simp
  then show ?R by blast
next
  assume ?R
  then obtain ds fr where s: "s = ds @ fr @ s'" and ds: "ds \<noteq> []" "\<forall>x\<in>set ds. is_digit x"
    and shape: "fr = [] \<or> (\<exists>fd. fr = CHR ''.'' # fd \<and> fd \<noteq> [] \<and> (\<forall>x\<in>set fd. is_digit x))"
    and p': "p' = after (ds @ fr) p" and c': "c' = c @ [(1, ds @ fr)]" by blast
  have a: "(Some (last ds), fr @ s', c) \<in> set (rx_all False (Plus Digit) (p, s, c))"
    using s ds by (simp only: mem_Plus) auto
  have "p' = after fr (Some (last ds))" using p' ds by (simp add: after_def)
  with shape have b: "(p', s', c) \<in> set (rx_all False (Opt (Seq (Lit ''.'') (Plus Digit)))
      (Some (last ds), fr @ s', c))"
    by (simp only: mem_fraction) blast
  from a b have g: "(p', s', c) \<in> set (rx_all False
        (Seq (Plus Digit) (Opt (Seq (Lit ''.'') (Plus Digit)))) (p, s, c))"
    by (simp only: mem_Seq) blast
  have "s = (ds @ fr) @ s'" using s by simp
  then have "take (length s - length s') s = ds @ fr"
    using take_consumed by metis
  with c' have "c' = c @ [(1, take (length s - length s') s)]" by simp
  with g show ?L unfolding number_rx_def by (simp only: mem_Group) blast
qed

lemma mem_mile_unit:
  "(p', s', c') \<in> set (rx_all False
       (Group 2 (Alt (Lit ''mi'') (Alt (Lit ''mile'') (Lit ''miles'')))) (p, s, c)) \<longleftrightarrow>
     (\<exists>u. u \<in> {''mi'', ''mile'', ''miles''} \<and> s = u @ s' \<and> p' = after u p \<and> c' = c @ [(2, u)])"
  (is "?L \<longleftrightarrow> ?R")
proof
  assume ?L
  then obtain c1 where g: "(p', s', c1) \<in> set (rx_all False
        (Alt (Lit ''mi'') (Alt (Lit ''mile'') (Lit ''miles''))) (p, s, c))"
    and c': "c' = c1 @ [(2, take (length s - length s') s)]"
    by (auto simp only: mem_Group)
  from g obtain u where u: "u \<in> {''mi'', ''mile'', ''miles''}" "s = u @ s'" "p' = after u p" "c1 = c"
    by (simp only: mem_Alt mem_Lit) blast
  from u(2) have "take (length s - length s') s = u" using take_consumed by metis
  with c' u show ?R by blast
next
  assume ?R
  then obtain u where u: "u \<in> {''mi'', ''mile'', ''miles''}" "s = u @ s'" "p' = after u p"
    and c': "c' = c @ [(2, u)]" by blast
  then have g: "(p', s', c) \<in> set (rx_all False
        (Alt (Lit ''mi'') (Alt (Lit ''mile'') (Lit ''miles''))) (p, s, c))"
    by (simp only: mem_Alt mem_Lit) blast
  from u(2) have "take (length s - length s') s = u" using take_consumed by metis
  with c' have "c' = c @ [(2, take (length s - length s') s)]" by simp
  with g show ?L by (simp only: mem_Group) blast
qed


lemma miles_at:
  "rx_all False miles_rx (p, s, []) \<noteq> [] \<longleftrightarrow>
     (\<exists>ds fr ws u post. s = ds @ fr @ ws @ u @ post \<and> ds \<noteq> [] \<and> (\<forall>x\<in>set ds. is_digit x) \<and>
        (fr = [] \<or> (\<exists>fd. fr = CHR ''.'' # fd \<and> fd \<noteq> [] \<and> (\<forall>x\<in>set fd. is_digit x))) \<and>
        (\<forall>x\<in>set ws. is_space x) \<and> u \<in> {''mi'', ''mile'', ''miles''} \<and>
        (post = [] \<or> \<not> is_word (hd post)))"
  (is "?L \<longleftrightarrow> ?R")
proof
  assume ?L
  then obtain st where "st \<in> set (rx_all False miles_rx (p, s, []))"
    by (cases "rx_all False miles_rx (p, s, [])") auto
  then obtain st1 st2 st3 where
    n: "st1 \<in> set (rx_all False number_rx (p, s, []))"
    and w: "st2 \<in> set (rx_all False (Star Space) st1)"
    and u: "st3 \<in> set (rx_all False (Group 2 (Alt (Lit ''mi'') (Alt (Lit ''mile'') (Lit ''miles'')))) st2)"
    and b: "st \<in> set (rx_all False WordBoundary st3)"
    unfolding miles_rx_def by (auto simp only: mem_Seq)
  obtain p1 s1 c1 where st1: "st1 = (p1, s1, c1)" by (cases st1)
  obtain p2 s2 c2 where st2: "st2 = (p2, s2, c2)" by (cases st2)
  obtain p3 s3 c3 where st3: "st3 = (p3, s3, c3)" by (cases st3)
  from n [unfolded st1 mem_number] obtain ds fr where
    ds: "s = ds @ fr @ s1" "ds \<noteq> []" "\<forall>x\<in>set ds. is_digit x"
    "fr = [] \<or> (\<exists>fd. fr = CHR ''.'' # fd \<and> fd \<noteq> [] \<and> (\<forall>x\<in>set fd. is_digit x))"
    by blast
  from w [unfolded st1 st2 mem_Star] obtain ws where
    ws: "s1 = ws @ s2" "\<forall>x\<in>set ws. in_class Space x" by blast
  from u [unfolded st2 st3 mem_mile_unit] obtain un where
    un: "un \<in> {''mi'', ''mile'', ''miles''}" "s2 = un @ s3" "p3 = after un p2" by blast
  from b [unfolded st3 mem_WordBoundary] have "at_boundary p3 s3" by simp
  with un have post: "s3 = [] \<or> \<not> is_word (hd s3)"
    by (simp only: units_end_word)
  from ds ws un have "s = ds @ fr @ ws @ un @ s3" by simp
  with ds ws un post show ?R by (simp only: in_class.simps) blast
next
  assume ?R
  then obtain ds fr ws u post where s: "s = ds @ fr @ ws @ u @ post"
    and ds: "ds \<noteq> []" "\<forall>x\<in>set ds. is_digit x"
    "fr = [] \<or> (\<exists>fd. fr = CHR ''.'' # fd \<and> fd \<noteq> [] \<and> (\<forall>x\<in>set fd. is_digit x))"
    and ws: "\<forall>x\<in>set ws. is_space x" and u: "u \<in> {''mi'', ''mile'', ''miles''}"
    and post: "post = [] \<or> \<not> is_word (hd post)" by blast
  let ?p1 = "after (ds @ fr) p" and ?c1 = "[] @ [(1, ds @ fr)]"
  let ?p2 = "after ws ?p1"
  let ?p3 = "after u ?p2" and ?c3 = "?c1 @ [(2, u)]"
  have n: "(?p1, ws @ u @ post, ?c1) \<in> set (rx_all False number_rx (p, s, []))"
    using s ds by (simp only: mem_number) blast
  have w: "(?p2, u @ post, ?c1) \<in> set (rx_all False (Star Space) (?p1, ws @ u @ post, ?c1))"
    using ws by (simp only: mem_Star in_class.simps) blast
  have g: "(?p3, post, ?c3) \<in> set (rx_all False
      (Group 2 (Alt (Lit ''mi'') (Alt (Lit ''mile'') (Lit ''miles'')))) (?p2, u @ post, ?c1))"
    using u by (simp only: mem_mile_unit) blast
  from post u have "at_boundary ?p3 post" by (simp only: units_end_word)
  then have b: "(?p3, post, ?c3) \<in> set (rx_all False WordBoundary (?p3, post, ?c3))"
    by (simp only: mem_WordBoundary)
  from n w g b have "(?p3, post, ?c3) \<in> set (rx_all False miles_rx (p, s, []))"
    unfolding miles_rx_def by (simp only: mem_Seq) blast
  then show ?L by auto
qed

lemma rx_match_None: "rx_match ic r t = None \<longleftrightarrow> rx_search ic r None t = None"
  by (simp add: rx_match_def split: option.splits)

lemma miles_rx_matches:
  "rx_match False miles_rx t \<noteq> None \<longleftrightarrow>
     (\<exists>pre ds fr ws u post. t = pre @ ds @ fr @ ws @ u @ post \<and>
        ds \<noteq> [] \<and> (\<forall>x\<in>set ds. is_digit x) \<and>
        (fr = [] \<or> (\<exists>fd. fr = CHR ''.'' # fd \<and> fd \<noteq> [] \<and> (\<forall>x\<in>set fd. is_digit x))) \<and>
        (\<forall>x\<in>set ws. is_space x) \<and> u \<in> {''mi'', ''mile'', ''miles''} \<and>
        (post = [] \<or> \<not> is_word (hd post)))"
  (is "?L \<longleftrightarrow> ?R")
proof
  assume ?L
  then have "\<not> (\<forall>pre rest. t = pre @ rest \<longrightarrow> rx_all False miles_rx (after pre None, rest, []) = [])"
    unfolding rx_match_None rx_search_None .
  then obtain pre rest where t: "t = pre @ rest"
    and m: "rx_all False miles_rx (after pre None, rest, []) \<noteq> []" by blast
  from m [unfolded miles_at] t show ?R by blast
next
  assume ?R
  then obtain pre ds fr ws u post where t: "t = pre @ (ds @ fr @ ws @ u @ post)"
    and sh: "ds \<noteq> []" "\<forall>x\<in>set ds. is_digit x"
    "fr = [] \<or> (\<exists>fd. fr = CHR ''.'' # fd \<and> fd \<noteq> [] \<and> (\<forall>x\<in>set fd. is_digit x))"
    "\<forall>x\<in>set ws. is_space x" "u \<in> {''mi'', ''mile'', ''miles''}"
    "post = [] \<or> \<not> is_word (hd post)" by blast
  from sh have "rx_all False miles_rx (after pre None, ds @ fr @ ws @ u @ post, []) \<noteq> []"
    by (simp only: miles_at) blast
  with t have "\<not> (\<forall>pre rest. t = pre @ rest \<longrightarrow> rx_all False miles_rx (after pre None, rest, []) = [])"
    by blast
  then show ?L unfolding rx_match_None rx_search_None .
qed

lemma rx_at_Some_mem: "rx_at ic r prev s = Some st \<Longrightarrow> st \<in> set (rx_all ic r (prev, s, []))"
  by (auto simp: rx_at_def split: list.splits)

lemma rx_search_Some:
  "rx_search ic r prev s = Some (m0, caps) \<Longrightarrow>
   \<exists>pre rest p' s'. s = pre @ rest \<and> (p', s', caps) \<in> set (rx_all ic r (after pre prev, rest, []))"
proof (induction s arbitrary: prev)
  case Nil
  then obtain p' s' where "rx_at ic r prev [] = Some (p', s', caps)"
    by (auto split: option.splits)
  then have "(p', s', caps) \<in> set (rx_all ic r (after [] prev, [], []))"
    by (simp add: rx_at_Some_mem after_def)
  then show ?case by blast
next
  case (Cons c cs)
  show ?case
  proof (cases "rx_at ic r prev (c # cs)")
    case None
    with Cons.prems have "rx_search ic r (Some c) cs = Some (m0, caps)" by simp
    from Cons.IH [OF this] obtain pre rest p' s' where
      a: "cs = pre @ rest" "(p', s', caps) \<in> set (rx_all ic r (after pre (Some c), rest, []))"
      by blast
    then have "c # cs = (c # pre) @ rest \<and>
        (p', s', caps) \<in> set (rx_all ic r (after (c # pre) prev, rest, []))"
      by (cases pre) (simp_all add: after_def)
    then show ?thesis by blast
  next
    case (Some st)
    obtain p' s' c' where st: "st = (p', s', c')" by (cases st)
    with Some Cons.prems have "c' = caps" by simp
    with Some st have "c # cs = [] @ (c # cs) \<and>
        (p', s', caps) \<in> set (rx_all ic r (after [] prev, c # cs, []))"
      by (simp add: rx_at_Some_mem after_def)
    then show ?thesis by blast
  qed
qed

lemma mem_fallback:
  assumes "(p', s', c') \<in> set (rx_all False fallback_rx (p, s, []))"
  shows "\<exists>w. c' = [(1, w)] \<and> w \<noteq> [] \<and> (\<forall>x\<in>set w. is_word x)"
proof -
  from assms obtain st1 st2 st3 where
    "st1 \<in> set (rx_all False (Lit ''completed '') (p, s, []))"
    and "st2 \<in> set (rx_all False (Alt (Lit ''a'') (Lit ''an'')) st1)"
    and "st3 \<in> set (rx_all False (Lit '' '') st2)"
    and g: "(p', s', c') \<in> set (rx_all False (Group 1 (Plus WordChar)) st3)"
    unfolding fallback_rx_def by (auto simp only: mem_Seq)
  moreover obtain p1 s1 c1 where "st1 = (p1, s1, c1)" by (cases st1)
  moreover obtain p2 s2 c2 where "st2 = (p2, s2, c2)" by (cases st2)
  moreover obtain p3 s3 c3 where st3: "st3 = (p3, s3, c3)" by (cases st3)
  ultimately have c3: "c3 = []" by (auto simp only: mem_Lit mem_Alt)
  from g [unfolded st3 mem_Group mem_Plus] obtain w where
    w: "w \<noteq> []" "s3 = w @ s'" "\<forall>x\<in>set w. in_class WordChar x"
    and c': "c' = c3 @ [(1, take (length s3 - length s') s3)]" by blast
  from w(2) have "take (length s3 - length s') s3 = w" using take_consumed by metis
  with c' c3 w show ?thesis by simp
qed

lemma fallback_group_1:
  assumes "rx_match False fallback_rx t = Some m"
  shows "\<exists>w. m 1 = Some w \<and> w \<noteq> [] \<and> (\<forall>x\<in>set w. is_word x)"
proof -
  from assms obtain m0 caps where s: "rx_search False fallback_rx None t = Some (m0, caps)"
    and m: "m = (map_of caps)(0 \<mapsto> m0)"
    by (auto simp: rx_match_def split: option.splits)
  from rx_search_Some [OF s] mem_fallback obtain w where
    "caps = [(1, w)]" "w \<noteq> []" "\<forall>x\<in>set w. is_word x" by blast
  with m show ?thesis by simp
qed


section \<open>Category\<close>

text \<open>
  C3: for every text, \<open>source\<close> returns one of the four category literals
  \<open>completed_event\<close>, \<open>live_event\<close>, \<open>achievement\<close>, \<open>miscellaneous\<close>; it has no error
  case, and a text that matches none of the three rules is \<open>miscellaneous\<close>. The rules are
  read on the lower-cased text of the tweet, as \<open>source\<close> reads them.
\<close>

theorem source_total:
  "source tw \<in> {''completed_event'', ''live_event'', ''achievement'', ''miscellaneous''} \<and>
   (\<not> looksCompleted (toLowerCase (tweet_text tw)) \<and>
    \<not> looksLive (toLowerCase (tweet_text tw)) \<and>
    \<not> looksAchievement (toLowerCase (tweet_text tw))
      \<longrightarrow> source tw = ''miscellaneous'')"
  by (simp add: source_def Let_def)

theorem source_total_witness:
  "\<not> looksCompleted (toLowerCase (tweet_text (new_Tweet ''hello world''))) \<and>
   \<not> looksLive (toLowerCase (tweet_text (new_Tweet ''hello world''))) \<and>
   \<not> looksAchievement (toLowerCase (tweet_text (new_Tweet ''hello world''))) \<and>
   source (new_Tweet ''hello world'') = ''miscellaneous''"
proof -
  have h: "\<not> looksCompleted (toLowerCase (tweet_text (new_Tweet ''hello world''))) \<and>
      \<not> looksLive (toLowerCase (tweet_text (new_Tweet ''hello world''))) \<and>
      \<not> looksAchievement (toLowerCase (tweet_text (new_Tweet ''hello world'')))"
    by code_simp
  with source_total [of "new_Tweet ''hello world''"] show ?thesis by blast
qed

text \<open>
  C2: a text that satisfies a completed-event rule and a live-event rule is a
  \<open>completed_event\<close> and not a \<open>live_event\<close>: rule 1 is tried before rule 2.
\<close>

theorem completed_before_live:
  "looksCompleted (toLowerCase (tweet_text tw)) \<Longrightarrow> looksLive (toLowerCase (tweet_text tw)) \<Longrightarrow>
   source tw = ''completed_event'' \<and> source tw \<noteq> ''live_event''"
  by (simp add: source_def Let_def)

theorem completed_before_live_witness:
  "looksCompleted (toLowerCase (tweet_text (new_Tweet ''I just heard Bob is running''))) \<and>
   looksLive (toLowerCase (tweet_text (new_Tweet ''I just heard Bob is running''))) \<and>
   source (new_Tweet ''I just heard Bob is running'') = ''completed_event'' \<and>
   source (new_Tweet ''I just heard Bob is running'') \<noteq> ''live_event''"
proof -
  have c: "looksCompleted (toLowerCase (tweet_text (new_Tweet ''I just heard Bob is running'')))"
    by code_simp
  have l: "looksLive (toLowerCase (tweet_text (new_Tweet ''I just heard Bob is running'')))"
    by code_simp
  from completed_before_live [OF c l] c l show ?thesis by blast
qed


section \<open>Activity type and distance\<close>

text \<open>
  C1: for every text whose category is not \<open>completed_event\<close>, the activity type is
  \<open>unknown\<close> and the distance is 0, whatever the text says; so for
  \<open>is running a marathon today!\<close>, a \<open>live_event\<close>.
\<close>

theorem not_completed_unknown_zero:
  "source tw \<noteq> ''completed_event'' \<Longrightarrow> activityType tw = ''unknown'' \<and> distance tw = Num 0"
  by (simp add: activityType_def distance_def)

theorem not_completed_unknown_zero_witness:
  "source (new_Tweet ''is running a marathon today!'') = ''live_event'' \<and>
   activityType (new_Tweet ''is running a marathon today!'') = ''unknown'' \<and>
   distance (new_Tweet ''is running a marathon today!'') = Num 0"
proof -
  have h: "source (new_Tweet ''is running a marathon today!'') = ''live_event''"
    by code_simp
  then have "source (new_Tweet ''is running a marathon today!'') \<noteq> ''completed_event''"
    by simp
  from not_completed_unknown_zero [OF this] h show ?thesis by blast
qed

text \<open>
  C9: the order of the table is the priority of the labels. For a completed-event text in
  which an alias of an earlier entry and an alias of a later entry both occur as whole
  words, the label is never the later one: it is the earlier one, unless an entry before
  it has an alias in the text too (and then that entry, earlier still, gives the label).
  So \<open>Just completed a 5k run and bike ride\<close> is \<open>running\<close>, not \<open>cycling\<close>.
\<close>

theorem activity_table_priority:
  assumes completed: "source tw = ''completed_event''"
    and order: "i < j" "j < length activity_map"
    and earlier: "a1 \<in> set (snd (activity_map ! i))"
      "rx_test False (word_rx a1) (toLowerCase (tweet_text tw))"
    and later: "a2 \<in> set (snd (activity_map ! j))"
      "rx_test False (word_rx a2) (toLowerCase (tweet_text tw))"
  shows "activityType tw \<noteq> fst (activity_map ! j) \<and>
    (\<exists>k\<le>i. activityType tw = fst (activity_map ! k)) \<and>
    ((\<forall>l<i. \<not> alias_found (snd (activity_map ! l)) (toLowerCase (tweet_text tw)))
       \<longrightarrow> activityType tw = fst (activity_map ! i))"
proof -
  let ?t = "toLowerCase (tweet_text tw)"
  from order have i: "i < length activity_map" by simp
  from earlier have "alias_found (snd (activity_map ! i)) ?t"
    by (auto simp: alias_found_iff)
  from first_label_found [OF i this] obtain k where k: "k \<le> i"
    "first_label activity_map ?t = Some (fst (activity_map ! k))"
    "alias_found (snd (activity_map ! k)) ?t" by blast
  from completed k(2) have act: "activityType tw = fst (activity_map ! k)"
    by (simp add: activityType_def)
  have "fst (activity_map ! k) \<noteq> fst (activity_map ! j)"
  proof
    assume eq: "fst (activity_map ! k) = fst (activity_map ! j)"
    from k(1) order have kj: "k < length (map fst activity_map)" "j < length (map fst activity_map)"
      by simp_all
    with eq have "map fst activity_map ! k = map fst activity_map ! j"
      by (simp only: nth_map length_map)
    with nth_eq_iff_index_eq [OF activity_labels_distinct kj] have "k = j" by simp
    with k(1) order show False by simp
  qed
  moreover have "\<exists>k\<le>i. activityType tw = fst (activity_map ! k)"
    using act k(1) by blast
  moreover have "activityType tw = fst (activity_map ! i)"
    if none: "\<forall>l<i. \<not> alias_found (snd (activity_map ! l)) ?t"
  proof -
    from none k(3) have "\<not> k < i" by blast
    with k(1) have "k = i" by simp
    with act show ?thesis by simp
  qed
  ultimately show ?thesis using act by simp
qed

theorem activity_table_priority_witness:
  "source (new_Tweet ''Just completed a 5k run and bike ride'') = ''completed_event'' \<and>
   rx_test False (word_rx ''run'')
     (toLowerCase (tweet_text (new_Tweet ''Just completed a 5k run and bike ride''))) \<and>
   rx_test False (word_rx ''bike'')
     (toLowerCase (tweet_text (new_Tweet ''Just completed a 5k run and bike ride''))) \<and>
   activityType (new_Tweet ''Just completed a 5k run and bike ride'') = ''running'' \<and>
   activityType (new_Tweet ''Just completed a 5k run and bike ride'') \<noteq> ''cycling''"
proof -
  let ?tw = "new_Tweet ''Just completed a 5k run and bike ride''"
  have c: "source ?tw = ''completed_event''" by code_simp
  have r: "rx_test False (word_rx ''run'') (toLowerCase (tweet_text ?tw))" by code_simp
  have b: "rx_test False (word_rx ''bike'') (toLowerCase (tweet_text ?tw))" by code_simp
  have o: "(0::nat) < 2" "2 < length activity_map" by (simp_all add: activity_map_def)
  have m1: "''run'' \<in> set (snd (activity_map ! 0))" by (simp add: activity_map_def)
  have m2: "''bike'' \<in> set (snd (activity_map ! 2))" by (simp add: activity_map_def)
  from activity_table_priority [OF c o m1 r m2 b]
  have "activityType ?tw = fst (activity_map ! 0)" by simp
  then have "activityType ?tw = ''running''" by (simp add: activity_map_def)
  with c r b show ?thesis by simp
qed

text \<open>
  C7, as the code has it: \<open>completed a 10 km run\<close> and \<open>completed a 3 mile run\<close>
  contain \<open>completed a\<close> without the space before it, so they are \<open>miscellaneous\<close> and
  their distance is 0. With a text that is a completed event, \<open>Just completed a 10 km run\<close>
  gives 10 / 1.609, which is within 0.001 of 6.215 (not of 6.214), and
  \<open>Just completed a 3 mile run\<close> gives exactly 3.
\<close>

theorem distance_examples:
  "source (new_Tweet ''completed a 10 km run'') = ''miscellaneous'' \<and>
   distance (new_Tweet ''completed a 10 km run'') = Num 0 \<and>
   source (new_Tweet ''completed a 3 mile run'') = ''miscellaneous'' \<and>
   distance (new_Tweet ''completed a 3 mile run'') = Num 0 \<and>
   distance (new_Tweet ''Just completed a 10 km run'') = Num (10 / 1.609) \<and>
   close_to (distance (new_Tweet ''Just completed a 10 km run'')) 6.215 0.001 \<and>
   \<not> close_to (distance (new_Tweet ''Just completed a 10 km run'')) 6.214 0.001 \<and>
   distance (new_Tweet ''Just completed a 3 mile run'') = Num 3"
  by code_simp

text \<open>
  The claim C7 as it is written fails: the distance of \<open>completed a 10 km run\<close> is not
  within 0.001 of 6.214, and the distance of \<open>completed a 3 mile run\<close> is not 3.
\<close>

theorem distance_examples_counterexample:
  "\<not> close_to (distance (new_Tweet ''completed a 10 km run'')) 6.214 0.001 \<and>
   distance (new_Tweet ''completed a 3 mile run'') \<noteq> Num 3"
  by code_simp

text \<open>
  C8, as the code has it: the miles pattern is a decimal number, then zero or more
  whitespace characters, then \<open>mi\<close>, \<open>mile\<close> or \<open>miles\<close> ending at a word boundary;
  nothing is required between the number and the unit. For a completed event the miles
  branch gives the distance exactly when the lower-cased text contains such an
  occurrence, so it does when the number is directly followed by the unit.
\<close>

theorem miles_branch_fires_iff:
  assumes "source tw = ''completed_event''"
  shows "(\<exists>m. rx_match False miles_rx (toLowerCase (tweet_text tw)) = Some m \<and>
             distance tw = group_number m 1) \<longleftrightarrow>
     (\<exists>pre ds fr ws u post. toLowerCase (tweet_text tw) = pre @ ds @ fr @ ws @ u @ post \<and>
        ds \<noteq> [] \<and> (\<forall>x\<in>set ds. is_digit x) \<and>
        (fr = [] \<or> (\<exists>fd. fr = CHR ''.'' # fd \<and> fd \<noteq> [] \<and> (\<forall>x\<in>set fd. is_digit x))) \<and>
        (\<forall>x\<in>set ws. is_space x) \<and> u \<in> {''mi'', ''mile'', ''miles''} \<and>
        (post = [] \<or> \<not> is_word (hd post)))"
proof -
  let ?t = "toLowerCase (tweet_text tw)"
  have "(\<exists>m. rx_match False miles_rx ?t = Some m \<and> distance tw = group_number m 1)
      \<longleftrightarrow> rx_match False miles_rx ?t \<noteq> None"
    using assms by (auto simp: distance_def)
  then show ?thesis by (simp only: miles_rx_matches)
qed

theorem miles_branch_fires_iff_witness:
  "source (new_Tweet ''I just biked 12.5mi!'') = ''completed_event'' \<and>
   toLowerCase (tweet_text (new_Tweet ''I just biked 12.5mi!''))
     = ''i just biked '' @ ''12'' @ ''.5'' @ [] @ ''mi'' @ ''!'' \<and>
   (\<exists>m. rx_match False miles_rx (toLowerCase (tweet_text (new_Tweet ''I just biked 12.5mi!''))) = Some m \<and>
        distance (new_Tweet ''I just biked 12.5mi!'') = group_number m 1) \<and>
   distance (new_Tweet ''I just biked 12.5mi!'') = Num 12.5"
proof -
  let ?tw = "new_Tweet ''I just biked 12.5mi!''"
  have c: "source ?tw = ''completed_event''" by code_simp
  have t: "toLowerCase (tweet_text ?tw) = ''i just biked '' @ ''12'' @ ''.5'' @ [] @ ''mi'' @ ''!''"
    by code_simp
  have d: "distance ?tw = Num 12.5" by code_simp
  have "''12'' \<noteq> [] \<and> (\<forall>x\<in>set ''12''. is_digit x) \<and>
        (''.5'' = [] \<or> (\<exists>fd. ''.5'' = CHR ''.'' # fd \<and> fd \<noteq> [] \<and> (\<forall>x\<in>set fd. is_digit x))) \<and>
        (\<forall>x\<in>set []. is_space x) \<and> ''mi'' \<in> {''mi'', ''mile'', ''miles''} \<and>
        (''!'' = [] \<or> \<not> is_word (hd ''!''))"
    by (simp add: is_digit_def is_word_def is_lower_def is_upper_def)
  with t have "\<exists>pre ds fr ws u post. toLowerCase (tweet_text ?tw) = pre @ ds @ fr @ ws @ u @ post \<and>
        ds \<noteq> [] \<and> (\<forall>x\<in>set ds. is_digit x) \<and>
        (fr = [] \<or> (\<exists>fd. fr = CHR ''.'' # fd \<and> fd \<noteq> [] \<and> (\<forall>x\<in>set fd. is_digit x))) \<and>
        (\<forall>x\<in>set ws. is_space x) \<and> u \<in> {''mi'', ''mile'', ''miles''} \<and>
        (post = [] \<or> \<not> is_word (hd post))"
    by blast
  with miles_branch_fires_iff [OF c]
  have "\<exists>m. rx_match False miles_rx (toLowerCase (tweet_text ?tw)) = Some m \<and>
        distance ?tw = group_number m 1" by blast
  with c t d show ?thesis by blast
qed

text \<open>
  The claim C8 as it is written fails: in the completed event
  \<open>Just completed a 3mi run\<close> the number is directly followed by the unit, and the miles
  branch fires and gives 3.
\<close>

theorem miles_branch_counterexample:
  "source (new_Tweet ''Just completed a 3mi run'') = ''completed_event'' \<and>
   rx_match False miles_rx (toLowerCase (tweet_text (new_Tweet ''Just completed a 3mi run''))) \<noteq> None \<and>
   distance (new_Tweet ''Just completed a 3mi run'') = Num 3"
proof -
  have "rx_search False miles_rx None
      (toLowerCase (tweet_text (new_Tweet ''Just completed a 3mi run''))) \<noteq> None"
    by code_simp
  then have "rx_match False miles_rx
      (toLowerCase (tweet_text (new_Tweet ''Just completed a 3mi run''))) \<noteq> None"
    by (simp only: rx_match_None not_False_eq_True)
  moreover have "source (new_Tweet ''Just completed a 3mi run'') = ''completed_event''"
    by code_simp
  moreover have "distance (new_Tweet ''Just completed a 3mi run'') = Num 3"
    by code_simp
  ultimately show ?thesis by blast
qed


section \<open>Written content\<close>

text \<open>
  C4: whether a tweet is user-written is the comparison with 3 of the number of
  characters of \<open>[a-z0-9]\<close> left after normalizing, lower-casing and replacing the
  template vocabulary, as whole words, by spaces; the later collapsing and trimming of
  whitespace do not change that number. A residue of 2 such characters gives
  \<open>false\<close>, one of 3 gives \<open>true\<close>.
\<close>

theorem written_threshold:
  "(written tw \<longleftrightarrow> 3 \<le> alnum_count (residue tw)) \<and>
   (alnum_count (residue tw) = 2 \<longrightarrow> \<not> written tw) \<and>
   (alnum_count (residue tw) = 3 \<longrightarrow> written tw)"
  by (simp add: written_count)

theorem written_threshold_witness:
  "alnum_count (residue (new_Tweet ''Just completed a run k'')) = 2 \<and>
   \<not> written (new_Tweet ''Just completed a run k'') \<and>
   alnum_count (residue (new_Tweet ''Just completed a run ok'')) = 3 \<and>
   written (new_Tweet ''Just completed a run ok'')"
proof -
  have two: "alnum_count (residue (new_Tweet ''Just completed a run k'')) = 2"
    by code_simp
  have three: "alnum_count (residue (new_Tweet ''Just completed a run ok'')) = 3"
    by code_simp
  from written_threshold [of "new_Tweet ''Just completed a run k''"]
    written_threshold [of "new_Tweet ''Just completed a run ok''"] two three
  show ?thesis by simp
qed

text \<open>
  C5: \<open>writtenText\<close> is the empty string when the tweet is not user-written, and the
  normalized text (neither lower-cased nor stripped of the templates) when it is.
\<close>

theorem writtenText_cases:
  "(\<not> written (new_Tweet raw) \<longrightarrow> writtenText (new_Tweet raw) = []) \<and>
   (written (new_Tweet raw) \<longrightarrow> writtenText (new_Tweet raw) = normalize_text raw)"
  by (simp add: writtenText_def normalize_text_def)

theorem writtenText_cases_witness:
  "\<not> written (new_Tweet ''Just completed a run'') \<and>
   writtenText (new_Tweet ''Just completed a run'') = [] \<and>
   written (new_Tweet ''Just completed a Run ok #Runkeeper'') \<and>
   writtenText (new_Tweet ''Just completed a Run ok #Runkeeper'') = ''Just completed a Run ok''"
proof -
  have n: "\<not> written (new_Tweet ''Just completed a run'')" by code_simp
  have w: "written (new_Tweet ''Just completed a Run ok #Runkeeper'')" by code_simp
  have e: "normalize_text ''Just completed a Run ok #Runkeeper'' = ''Just completed a Run ok''"
    by code_simp
  from writtenText_cases [of "''Just completed a run''"]
    writtenText_cases [of "''Just completed a Run ok #Runkeeper''"] n w e
  show ?thesis by simp
qed


section \<open>Whitespace around the text\<close>

text \<open>
  C10: whitespace before and after the raw text changes no output. For whitespace-only
  \<open>w1\<close> and \<open>w2\<close>, the category, the written flag, the written text, the activity type
  and the distance of \<open>w1 + t + w2\<close> are those of \<open>t\<close>, since the constructor trims the
  text; so a text with two spaces before \<open>Just completed a run\<close> is a completed event.
\<close>

theorem outputs_ignore_outer_whitespace:
  assumes "\<forall>c\<in>set w1. is_space c" and "\<forall>c\<in>set w2. is_space c"
  shows "source (new_Tweet (w1 @ t @ w2)) = source (new_Tweet t) \<and>
    written (new_Tweet (w1 @ t @ w2)) = written (new_Tweet t) \<and>
    writtenText (new_Tweet (w1 @ t @ w2)) = writtenText (new_Tweet t) \<and>
    activityType (new_Tweet (w1 @ t @ w2)) = activityType (new_Tweet t) \<and>
    distance (new_Tweet (w1 @ t @ w2)) = distance (new_Tweet t)"
proof -
  have "new_Tweet (w1 @ t @ w2) = new_Tweet t"
    by (simp only: new_Tweet_def trim_padded [OF assms])
  then show ?thesis by simp
qed

theorem outputs_ignore_outer_whitespace_witness:
  "source (new_Tweet (''  '' @ ''Just completed a run'' @ [CHR 0x0A]))
     = source (new_Tweet ''Just completed a run'') \<and>
   written (new_Tweet (''  '' @ ''Just completed a run'' @ [CHR 0x0A]))
     = written (new_Tweet ''Just completed a run'') \<and>
   writtenText (new_Tweet (''  '' @ ''Just completed a run'' @ [CHR 0x0A]))
     = writtenText (new_Tweet ''Just completed a run'') \<and>
   activityType (new_Tweet (''  '' @ ''Just completed a run'' @ [CHR 0x0A]))
     = activityType (new_Tweet ''Just completed a run'') \<and>
   distance (new_Tweet (''  '' @ ''Just completed a run'' @ [CHR 0x0A]))
     = distance (new_Tweet ''Just completed a run'') \<and>
   \<not> startsWith (toLowerCase (''  '' @ ''Just completed a run'' @ [CHR 0x0A])) ''just completed'' \<and>
   source (new_Tweet ''Just completed a run'') = ''completed_event''"
proof -
  have w1: "\<forall>c\<in>set ''  ''. is_space c" by (simp add: is_space_def)
  have w2: "\<forall>c\<in>set [CHR 0x0A]. is_space c" by (simp add: is_space_def)
  have s: "\<not> startsWith (toLowerCase (''  '' @ ''Just completed a run'' @ [CHR 0x0A])) ''just completed''"
    by code_simp
  have c: "source (new_Tweet ''Just completed a run'') = ''completed_event''" by code_simp
  from outputs_ignore_outer_whitespace [OF w1 w2, of "''Just completed a run''"] s c
  show ?thesis by blast
qed


section \<open>Normalization\<close>

text \<open>
  C6, as the code has it: normalizing twice gives the same as normalizing once whenever
  the normalized text has nothing left to remove, that is, when none of the patterns
  that \<open>stripped\<close> removes (the tag, a URL, the attribution, a double quote at either
  end) matches it. Without that condition it can differ: one pass strips one double quote
  from each end, and a removal can join the parts of a tag or an attribution.
\<close>

theorem normalize_text_idempotent_when_clean:
  assumes "\<not> rx_test True tag_rx1 (normalize_text t)"
    and "\<not> rx_test False url_rx (normalize_text t)"
    and "\<not> rx_test True via_rx (normalize_text t)"
    and "\<not> rx_test False quote_rx (normalize_text t)"
  shows "normalize_text (normalize_text t) = normalize_text t"
proof -
  let ?s = "normalize_text t"
  have ss: "single_spaced ?s" and tr: "trim ?s = ?s"
    using stripped_normal [of "new_Tweet t"] by (simp_all add: normalize_text_def)
  from ss have co: "collapse ?s = ?s" by (rule collapse_single_spaced)
  have "normalize_text ?s = stripped \<lparr>tweet_text = ?s\<rparr>"
    by (simp add: normalize_text_def [of ?s] new_Tweet_def tr)
  also have "\<dots> = ?s"
    by (simp add: stripped_def replace_all_no_match assms rx_test_tag replace_all_spaces co tr)
  finally show ?thesis .
qed

theorem normalize_text_idempotent_when_clean_witness:
  "normalize_text ''Just completed a run with Runkeeper https://t.co/abc #Runkeeper''
     = ''Just completed a run with Runkeeper'' \<and>
   normalize_text (normalize_text
       ''Just completed a run with Runkeeper https://t.co/abc #Runkeeper'')
     = normalize_text
       ''Just completed a run with Runkeeper https://t.co/abc #Runkeeper''"
proof -
  let ?t = "''Just completed a run with Runkeeper https://t.co/abc #Runkeeper''"
  have n: "normalize_text ?t = ''Just completed a run with Runkeeper''"
    by code_simp
  have h1: "\<not> rx_test True tag_rx1 (normalize_text ?t)" unfolding n by code_simp
  have h2: "\<not> rx_test False url_rx (normalize_text ?t)" unfolding n by code_simp
  have h3: "\<not> rx_test True via_rx (normalize_text ?t)" unfolding n by code_simp
  have h4: "\<not> rx_test False quote_rx (normalize_text ?t)" unfolding n by code_simp
  from normalize_text_idempotent_when_clean [OF h1 h2 h3 h4] n show ?thesis by simp
qed


text \<open>
  The claim C6 as it is written fails: a text in two pairs of double quotes loses one
  pair with each pass.
\<close>

theorem normalize_text_idempotent_counterexample:
  "normalize_text (normalize_text [CHR 0x22, CHR 0x22, CHR ''a'', CHR 0x22, CHR 0x22])
     \<noteq> normalize_text [CHR 0x22, CHR 0x22, CHR ''a'', CHR 0x22, CHR 0x22]"
  by code_simp



end
